theory Spec2Isabelle
  imports Complex_Main "HOL-Library.Monad_Syntax" "HOL-Library.Multiset"
begin

section \<open>Values of type double\<close>

text \<open>
  The coordinates of \<^verbatim>\<open>convexHull.cpp\<close> are C++ doubles. A double is modelled as a
  finite real or one of the three special values of IEEE 754. Finite arithmetic is exact
  (rounding, overflow and underflow of finite results are left out, and so is the sign of
  zero); the special values propagate as IEEE 754 prescribes: a NaN operand gives NaN,
  \<open>inf - inf\<close>, \<open>0 * inf\<close>, \<open>0 / 0\<close> and \<open>inf / inf\<close> are NaN, a non-zero finite
  value divided by zero is an infinity, and every ordered comparison with NaN is false.
\<close>

datatype double = Fin real | PInf | NInf | NaN

fun dneg :: "double \<Rightarrow> double" where
  "dneg (Fin a) = Fin (- a)"
| "dneg PInf = NInf"
| "dneg NInf = PInf"
| "dneg NaN = NaN"

fun dadd :: "double \<Rightarrow> double \<Rightarrow> double" where
  "dadd NaN _ = NaN"
| "dadd _ NaN = NaN"
| "dadd (Fin a) (Fin b) = Fin (a + b)"
| "dadd PInf NInf = NaN"
| "dadd NInf PInf = NaN"
| "dadd PInf _ = PInf"
| "dadd _ PInf = PInf"
| "dadd NInf _ = NInf"
| "dadd _ NInf = NInf"

definition dsub :: "double \<Rightarrow> double \<Rightarrow> double" where
  "dsub a b = dadd a (dneg b)"

fun dsgn :: "double \<Rightarrow> real" where
  "dsgn (Fin a) = sgn a"
| "dsgn PInf = 1"
| "dsgn NInf = - 1"
| "dsgn NaN = 0"

definition dinf :: "real \<Rightarrow> double" where
  "dinf s = (if s = 0 then NaN else if 0 < s then PInf else NInf)"

fun dmul :: "double \<Rightarrow> double \<Rightarrow> double" where
  "dmul NaN _ = NaN"
| "dmul _ NaN = NaN"
| "dmul (Fin a) (Fin b) = Fin (a * b)"
| "dmul a b = dinf (dsgn a * dsgn b)"

fun ddiv :: "double \<Rightarrow> double \<Rightarrow> double" where
  "ddiv NaN _ = NaN"
| "ddiv _ NaN = NaN"
| "ddiv (Fin a) (Fin b) = (if b = 0 then dinf a else Fin (a / b))"
| "ddiv (Fin a) _ = Fin 0"
| "ddiv a (Fin b) = dinf (dsgn a * (if b < 0 then - 1 else 1))"
| "ddiv _ _ = NaN"

fun dabs :: "double \<Rightarrow> double" where
  "dabs (Fin a) = Fin \<bar>a\<bar>"
| "dabs PInf = PInf"
| "dabs NInf = PInf"
| "dabs NaN = NaN"

fun dsqrt :: "double \<Rightarrow> double" where
  "dsqrt (Fin a) = (if a < 0 then NaN else Fin (sqrt a))"
| "dsqrt PInf = PInf"
| "dsqrt NInf = NaN"
| "dsqrt NaN = NaN"

fun dless :: "double \<Rightarrow> double \<Rightarrow> bool" where
  "dless NaN _ = False"
| "dless _ NaN = False"
| "dless (Fin a) (Fin b) = (a < b)"
| "dless NInf NInf = False"
| "dless NInf _ = True"
| "dless _ NInf = False"
| "dless PInf _ = False"
| "dless _ PInf = True"

definition dgreater :: "double \<Rightarrow> double \<Rightarrow> bool" where
  "dgreater a b = dless b a"

section \<open>Geometry primitives\<close>

record Point =
  x :: double
  y :: double

text \<open>
  \<^verbatim>\<open>distance\<close> (lines 23 to 25): the absolute value of a cross product divided by the
  length of the segment, with no test of the divisor. \<^verbatim>\<open>abs\<close> is taken as the overload
  for doubles.
\<close>

definition distance :: "Point \<Rightarrow> Point \<Rightarrow> Point \<Rightarrow> double" where
  "distance a b p =
     ddiv
       (dabs (dsub (dmul (dsub (x b) (x a)) (dsub (y a) (y p)))
                   (dmul (dsub (x a) (x p)) (dsub (y b) (y a)))))
       (dsqrt (dadd (dmul (dsub (x b) (x a)) (dsub (x b) (x a)))
                    (dmul (dsub (y b) (y a)) (dsub (y b) (y a)))))"

section \<open>The point buffer, the hull result and the record of accesses\<close>

text \<open>
  Both vectors are passed by reference and mutated, so they travel in a state. Beside
  them the state keeps a record of what was done to the point buffer: one
  \<open>Subscript i\<close> for each evaluation of \<^verbatim>\<open>points[i]\<close>, in program order (the order among
  the arguments of one call is the order of writing), and one \<open>Search a b\<close> for each
  entry into \<^verbatim>\<open>findMaxDistancePoint\<close>. The record changes no result; statements
  about the indices a call examines are made on it.

  Indices are C++ \<^verbatim>\<open>int\<close>s, modelled as unbounded integers. A subscript outside the
  vector is undefined behaviour: the model returns \<open>None\<close> there, and every step after
  it is \<open>None\<close> too. In a run that is defined, every index computed lies between \<open>-1\<close>
  and the length of the vector, so for a vector of fewer than \<open>2^31\<close> points no
  \<^verbatim>\<open>int\<close> overflows.
\<close>

datatype event = Subscript int | Search int int

record state =
  points :: "Point list"
  convexHull :: "Point list"
  trace :: "event list"

definition subscript :: "state \<Rightarrow> int \<Rightarrow> (Point \<times> state) option" where
  "subscript s i =
     (if 0 \<le> i \<and> i < int (length (points s))
      then Some (points s ! nat i, s\<lparr>trace := trace s @ [Subscript i]\<rparr>)
      else None)"

text \<open>\<^verbatim>\<open>swap(points[i], points[j])\<close>: both elements are subscripted, then exchanged.\<close>

definition swap :: "state \<Rightarrow> int \<Rightarrow> int \<Rightarrow> state option" where
  "swap s i j =
     do {
       (p_i, s1) \<leftarrow> subscript s i;
       (p_j, s2) \<leftarrow> subscript s1 j;
       Some (s2\<lparr>points := (points s2)[nat i := p_j, nat j := p_i]\<rparr>)
     }"

lemma subscript_points: "subscript s i = Some (p, s') \<Longrightarrow> points s' = points s"
  by (auto simp: subscript_def split: if_splits)

section \<open>The farthest-point search\<close>

text \<open>
  \<^verbatim>\<open>findMaxDistancePoint\<close> (lines 35 to 48). The loop runs over the whole vector, from
  index 0 to \<^verbatim>\<open>points.size() - 1\<close>; the function has no range parameter.
\<close>

function findMaxDistancePoint_loop ::
  "state \<Rightarrow> int \<Rightarrow> int \<Rightarrow> int \<Rightarrow> double \<Rightarrow> int \<Rightarrow> (int \<times> state) option" where
  "findMaxDistancePoint_loop s a b i maxDist maxPointIndex =
     (if i < int (length (points s)) then
        do {
          (p_a, s1) \<leftarrow> subscript s a;
          (p_b, s2) \<leftarrow> subscript s1 b;
          (p_i, s3) \<leftarrow> subscript s2 i;
          let dist = distance p_a p_b p_i;
          if dgreater dist maxDist
          then findMaxDistancePoint_loop s3 a b (i + 1) dist i
          else findMaxDistancePoint_loop s3 a b (i + 1) maxDist maxPointIndex
        }
      else Some (maxPointIndex, s))"
  by pat_completeness auto
termination
proof (relation "measure (\<lambda>(s, a, b, i, maxDist, maxPointIndex). nat (int (length (points s)) - i))")
  show "wf (measure (\<lambda>(s, a, b, i, maxDist, maxPointIndex). nat (int (length (points s)) - i)))"
    by simp
qed (auto dest!: subscript_points)

definition findMaxDistancePoint :: "state \<Rightarrow> int \<Rightarrow> int \<Rightarrow> (int \<times> state) option" where
  "findMaxDistancePoint s a b =
     findMaxDistancePoint_loop (s\<lparr>trace := trace s @ [Search a b]\<rparr>) a b 0 (Fin (- 1)) (- 1)"

section \<open>The recursive hull builder\<close>

text \<open>The search for the referential point (lines 64 to 69).\<close>

function referential_loop :: "state \<Rightarrow> int \<Rightarrow> int \<Rightarrow> int \<Rightarrow> (int \<times> state) option" where
  "referential_loop s right i referentialIndex =
     (if i \<le> right then
        do {
          (p_i, s1) \<leftarrow> subscript s i;
          (p_r, s2) \<leftarrow> subscript s1 referentialIndex;
          referential_loop s2 right (i + 1)
            (if dless (x p_i) (x p_r) then i else referentialIndex)
        }
      else Some (referentialIndex, s))"
  by pat_completeness auto
termination
  by (relation "measure (\<lambda>(s, right, i, referentialIndex). nat (right + 1 - i))") auto

text \<open>The partition (lines 73 to 80).\<close>

function partition_loop :: "state \<Rightarrow> int \<Rightarrow> int \<Rightarrow> int \<Rightarrow> (int \<times> state) option" where
  "partition_loop s right i splitIndex =
     (if i < right then
        do {
          (p_i, s1) \<leftarrow> subscript s i;
          (p_r, s2) \<leftarrow> subscript s1 right;
          if dless (x p_i) (x p_r)
          then do {
                 s3 \<leftarrow> swap s2 i splitIndex;
                 partition_loop s3 right (i + 1) (splitIndex + 1)
               }
          else partition_loop s2 right (i + 1) splitIndex
        }
      else Some (splitIndex, s))"
  by pat_completeness auto
termination
  by (relation "measure (\<lambda>(s, right, i, splitIndex). nat (right - i))") auto

text \<open>
  What one call of \<^verbatim>\<open>quickHull\<close> does itself, past the base case and before it
  recurses, in two parts. \<open>partition_and_emit\<close> is lines 63 to 86: the referential
  point is found, moved to the end of the range, the range is partitioned around it, it is
  moved to the split index and appended to the hull; the split index is returned.
  \<open>quickHull_body\<close> adds line 89, the call of the farthest-point search, whose value
  is bound to \<^verbatim>\<open>maxDistancePoint\<close> and never read.
\<close>

definition partition_and_emit :: "state \<Rightarrow> int \<Rightarrow> int \<Rightarrow> (int \<times> state) option" where
  "partition_and_emit s left right =
     do {
       (referentialIndex, s1) \<leftarrow> referential_loop s right left left;
       s2 \<leftarrow> swap s1 referentialIndex right;
       (splitIndex, s3) \<leftarrow> partition_loop s2 right left left;
       s4 \<leftarrow> swap s3 right splitIndex;
       (p, s5) \<leftarrow> subscript s4 splitIndex;
       Some (splitIndex, s5\<lparr>convexHull := convexHull s5 @ [p]\<rparr>)
     }"

definition quickHull_body :: "state \<Rightarrow> int \<Rightarrow> int \<Rightarrow> (int \<times> state) option" where
  "quickHull_body s left right =
     do {
       (splitIndex, s6) \<leftarrow> partition_and_emit s left right;
       (maxDistancePoint, s7) \<leftarrow> findMaxDistancePoint s6 left splitIndex;
       Some (splitIndex, s7)
     }"

declare findMaxDistancePoint_loop.simps [simp del]
declare referential_loop.simps [simp del]
declare partition_loop.simps [simp del]

text \<open>
  The split index stays inside the range, whatever the partition does; this is what makes
  the recursion of \<^verbatim>\<open>quickHull\<close> end.
\<close>

lemma partition_loop_bounds:
  "partition_loop s right i splitIndex = Some (r, s') \<Longrightarrow> splitIndex \<le> i \<Longrightarrow> i \<le> right \<Longrightarrow>
   splitIndex \<le> r \<and> r \<le> right"
proof (induction "nat (right - i)" arbitrary: s i splitIndex)
  case 0
  then show ?case
    by (subst (asm) partition_loop.simps) auto
next
  case (Suc n)
  from Suc.hyps(2) have lt: "i < right" and n: "n = nat (right - (i + 1))" by auto
  from Suc.prems(1) lt obtain s2 sp where
    rec: "partition_loop s2 right (i + 1) sp = Some (r, s')"
    and sp: "sp = splitIndex \<or> sp = splitIndex + 1"
    by (subst (asm) partition_loop.simps) (auto split: Option.bind_splits if_splits)
  from Suc.hyps(1)[OF n rec] sp Suc.prems(2) lt show ?case by auto
qed

lemma quickHull_body_bounds:
  "quickHull_body s left right = Some (splitIndex, s') \<Longrightarrow> left \<le> right \<Longrightarrow>
   left \<le> splitIndex \<and> splitIndex \<le> right"
  by (auto simp: quickHull_body_def partition_and_emit_def split: Option.bind_splits
      dest!: partition_loop_bounds)

text \<open>
  \<^verbatim>\<open>quickHull\<close> (lines 58 to 94): the base case, the body, then the two recursive
  calls, the second on the state the first one leaves.
\<close>

function quickHull :: "state \<Rightarrow> int \<Rightarrow> int \<Rightarrow> state option" where
  "quickHull s left right =
     (if points s = [] \<or> left \<ge> right then Some s
      else
        do {
          (splitIndex, s7) \<leftarrow> quickHull_body s left right;
          s8 \<leftarrow> quickHull s7 left (splitIndex - 1);
          quickHull s8 (splitIndex + 1) right
        })"
  by pat_completeness auto
termination
proof (relation "measure (\<lambda>(s, left, right). nat (right - left))")
  show "wf (measure (\<lambda>(s, left, right). nat (right - left)))" by simp
qed (auto dest!: quickHull_body_bounds)

declare quickHull.simps [simp del]

section \<open>The driver\<close>

text \<open>
  \<^verbatim>\<open>main\<close> (lines 102 to 125). Its input is what the extractions of \<^verbatim>\<open>cin\<close> deliver:
  the count \<open>n\<close> and the coordinate pairs that follow it. Parsing itself is not
  modelled. When the pairs run out before \<open>n\<close> of them are read, the extraction fails and
  the point pushed holds indeterminate coordinates: the run is undefined (\<open>None\<close>).
  \<open>n\<close> is a 32-bit \<^verbatim>\<open>int\<close>; at its least value \<^verbatim>\<open>n - 1\<close> overflows, which is undefined
  too. What the run writes to \<^verbatim>\<open>cout\<close> is a list of items, and the value \<^verbatim>\<open>main\<close>
  returns is the exit status.
\<close>

datatype item = Prompt_count | Prompt_point int | Header | Vertex Point

record run =
  stdout :: "item list"
  exit_status :: int

function read_loop ::
  "int \<Rightarrow> int \<Rightarrow> Point list \<Rightarrow> Point list \<Rightarrow> item list \<Rightarrow> (Point list \<times> item list) option" where
  "read_loop n i input pts out =
     (if i < n then
        (case input of
           [] \<Rightarrow> None
         | point # rest \<Rightarrow> read_loop n (i + 1) rest (pts @ [point]) (out @ [Prompt_point (i + 1)]))
      else Some (pts, out))"
  by pat_completeness auto
termination
  by (relation "measure (\<lambda>(n, i, input, pts, out). nat (n - i))") auto

declare read_loop.simps [simp del]

definition main :: "int \<Rightarrow> Point list \<Rightarrow> run option" where
  "main n input =
     (if n \<le> - 2147483648 \<or> 2147483647 < n then None
      else
        do {
          (pts, out) \<leftarrow> read_loop n 0 input [] [Prompt_count];
          s \<leftarrow> quickHull \<lparr>points = pts, convexHull = [], trace = []\<rparr> 0 (n - 1);
          Some \<lparr>stdout = out @ [Header] @ map Vertex (convexHull s), exit_status = 0\<rparr>
        })"

section \<open>Defined steps\<close>

text \<open>Inside the vector a subscript and a swap are defined, and this is what they do.\<close>

lemma subscript_Some:
  "0 \<le> i \<Longrightarrow> i < int (length (points s)) \<Longrightarrow>
   subscript s i = Some (points s ! nat i, s\<lparr>trace := trace s @ [Subscript i]\<rparr>)"
  by (simp add: subscript_def)

lemma swap_Some:
  "0 \<le> i \<Longrightarrow> i < int (length (points s)) \<Longrightarrow> 0 \<le> j \<Longrightarrow> j < int (length (points s)) \<Longrightarrow>
   swap s i j =
     Some (s\<lparr>points := (points s)[nat i := points s ! nat j, nat j := points s ! nat i],
              trace := trace s @ [Subscript i, Subscript j]\<rparr>)"
  by (simp add: swap_def subscript_def)

text \<open>A segment of length zero: every operand of the final division is zero or NaN.\<close>

lemma dsub_self: "dsub a a = Fin 0 \<or> dsub a a = NaN"
  by (cases a) (simp_all add: dsub_def)

lemma dmul_zero_left: "dmul (Fin 0) b = Fin 0 \<or> dmul (Fin 0) b = NaN"
  by (cases b) (simp_all add: dinf_def)

lemma dmul_zero_right: "dmul b (Fin 0) = Fin 0 \<or> dmul b (Fin 0) = NaN"
  by (cases b) (simp_all add: dinf_def)

lemma dmul_NaN_right: "dmul b NaN = NaN"
  by (cases b) simp_all

lemma dadd_NaN_right: "dadd b NaN = NaN"
  by (cases b) simp_all

lemma distance_same: "distance a a p = NaN"
proof -
  have dx: "dsub (x a) (x a) = Fin 0 \<or> dsub (x a) (x a) = NaN" by (rule dsub_self)
  have dy: "dsub (y a) (y a) = Fin 0 \<or> dsub (y a) (y a) = NaN" by (rule dsub_self)
  have den: "dsqrt (dadd (dmul (dsub (x a) (x a)) (dsub (x a) (x a)))
                         (dmul (dsub (y a) (y a)) (dsub (y a) (y a)))) = Fin 0
        \<or> dsqrt (dadd (dmul (dsub (x a) (x a)) (dsub (x a) (x a)))
                         (dmul (dsub (y a) (y a)) (dsub (y a) (y a)))) = NaN"
    using dx dy by (auto simp: dadd_NaN_right)
  have m1: "dmul (dsub (x a) (x a)) (dsub (y a) (y p)) = Fin 0 \<or> dmul (dsub (x a) (x a)) (dsub (y a) (y p)) = NaN"
    using dx dmul_zero_left[of "dsub (y a) (y p)"] by auto
  have m2: "dmul (dsub (x a) (x p)) (dsub (y a) (y a)) = Fin 0 \<or> dmul (dsub (x a) (x p)) (dsub (y a) (y a)) = NaN"
    using dy dmul_zero_right[of "dsub (x a) (x p)"] by (auto simp: dmul_NaN_right)
  have num: "dabs (dsub (dmul (dsub (x a) (x a)) (dsub (y a) (y p)))
                   (dmul (dsub (x a) (x p)) (dsub (y a) (y a)))) = Fin 0
      \<or> dabs (dsub (dmul (dsub (x a) (x a)) (dsub (y a) (y p)))
                   (dmul (dsub (x a) (x p)) (dsub (y a) (y a)))) = NaN"
    using m1 m2 by (auto simp: dsub_def)
  show ?thesis
    unfolding distance_def using num den by (auto simp: dinf_def)
qed

lemma dgreater_NaN: "\<not> dgreater NaN d"
  by (simp add: dgreater_def) (cases d, simp_all)

text \<open>What one run of the loop of the search, from index \<open>i\<close>, adds to the record.\<close>

definition search_trace :: "int \<Rightarrow> int \<Rightarrow> int \<Rightarrow> int \<Rightarrow> event list" where
  "search_trace a b i n = concat (map (\<lambda>k. [Subscript a, Subscript b, Subscript k]) [i..n - 1])"

lemma search_trace_step:
  "i < n \<Longrightarrow> search_trace a b i n = [Subscript a, Subscript b, Subscript i] @ search_trace a b (i + 1) n"
  by (simp add: search_trace_def upto_rec1)

lemma search_trace_done: "\<not> i < n \<Longrightarrow> search_trace a b i n = []"
  by (simp add: search_trace_def)

lemma findMaxDistancePoint_loop_total:
  assumes "0 \<le> a" "a < int (length (points s))" "0 \<le> b" "b < int (length (points s))" "0 \<le> i"
  shows "\<exists>m. findMaxDistancePoint_loop s a b i maxDist mpi =
            Some (m, s\<lparr>trace := trace s @ search_trace a b i (int (length (points s)))\<rparr>)
          \<and> (a = b \<longrightarrow> m = mpi)"
  using assms
proof (induction "nat (int (length (points s)) - i)" arbitrary: s i maxDist mpi)
  case 0
  then have "\<not> i < int (length (points s))" by simp
  then show ?case
    by (subst findMaxDistancePoint_loop.simps) (simp add: search_trace_done)
next
  case (Suc n)
  let ?len = "int (length (points s))"
  let ?s3 = "s\<lparr>trace := trace s @ [Subscript a, Subscript b, Subscript i]\<rparr>"
  from Suc.hyps(2) have lt: "i < ?len" and n: "n = nat (int (length (points ?s3)) - (i + 1))" by auto
  have step: "findMaxDistancePoint_loop s a b i maxDist mpi =
     (if dgreater (distance (points s ! nat a) (points s ! nat b) (points s ! nat i)) maxDist
      then findMaxDistancePoint_loop ?s3 a b (i + 1) (distance (points s ! nat a) (points s ! nat b) (points s ! nat i)) i
      else findMaxDistancePoint_loop ?s3 a b (i + 1) maxDist mpi)"
    using lt Suc.prems
    by (subst findMaxDistancePoint_loop.simps) (simp add: subscript_Some)
  have pre: "0 \<le> a" "a < int (length (points ?s3))" "0 \<le> b" "b < int (length (points ?s3))" "0 \<le> i + 1"
    using Suc.prems by auto
  note IH = Suc.hyps(1)[OF n pre]
  show ?case
  proof (cases "dgreater (distance (points s ! nat a) (points s ! nat b) (points s ! nat i)) maxDist")
    case True
    then have neq: "a \<noteq> b" using distance_same dgreater_NaN by metis
    from IH[of "distance (points s ! nat a) (points s ! nat b) (points s ! nat i)" i] True neq lt
    show ?thesis by (auto simp: step search_trace_step)
  next
    case False
    from IH[of maxDist mpi] False lt
    show ?thesis by (auto simp: step search_trace_step)
  qed
qed

text \<open>The indices subscripted, and the searches entered, in a piece of the record.\<close>

fun subscripts :: "event list \<Rightarrow> int list" where
  "subscripts [] = []"
| "subscripts (Subscript i # es) = i # subscripts es"
| "subscripts (Search a b # es) = subscripts es"

fun searches :: "event list \<Rightarrow> (int \<times> int) list" where
  "searches [] = []"
| "searches (Subscript i # es) = searches es"
| "searches (Search a b # es) = (a, b) # searches es"

lemma subscripts_append: "subscripts (es @ fs) = subscripts es @ subscripts fs"
  by (induction es rule: subscripts.induct) auto

lemma searches_append: "searches (es @ fs) = searches es @ searches fs"
  by (induction es rule: searches.induct) auto

lemma dless_irrefl: "\<not> dless a a"
  by (cases a) auto

lemma dless_trans: "dless a b \<Longrightarrow> dless b c \<Longrightarrow> dless a c"
  by (cases a; cases b; cases c) auto

lemma referential_loop_total:
  assumes "0 \<le> lo" "lo \<le> i" "lo \<le> r0" "r0 \<le> right" "right < int (length (points s))"
    and "\<forall>j. lo \<le> j \<and> j < i \<longrightarrow> \<not> dless (x (points s ! nat j)) (x (points s ! nat r0))"
  shows "\<exists>r evs. referential_loop s right i r0 = Some (r, s\<lparr>trace := trace s @ evs\<rparr>)
          \<and> lo \<le> r \<and> r \<le> right
          \<and> (\<forall>j. lo \<le> j \<and> j \<le> right \<longrightarrow> \<not> dless (x (points s ! nat j)) (x (points s ! nat r)))
          \<and> set (subscripts evs) \<subseteq> {lo..right} \<and> searches evs = []"
  using assms
proof (induction "nat (right + 1 - i)" arbitrary: s i r0)
  case 0
  then have "\<not> i \<le> right" by simp
  with 0 have "referential_loop s right i r0 = Some (r0, s\<lparr>trace := trace s @ []\<rparr>)"
    by (subst referential_loop.simps) simp
  moreover from 0 \<open>\<not> i \<le> right\<close>
  have "\<forall>j. lo \<le> j \<and> j \<le> right \<longrightarrow> \<not> dless (x (points s ! nat j)) (x (points s ! nat r0))"
    by auto
  ultimately show ?case using 0 by (intro exI[of _ r0] exI[of _ "[]"]) simp
next
  case (Suc n)
  let ?s2 = "s\<lparr>trace := trace s @ [Subscript i, Subscript r0]\<rparr>"
  let ?r1 = "if dless (x (points s ! nat i)) (x (points s ! nat r0)) then i else r0"
  from Suc.hyps(2) have le: "i \<le> right" and n: "n = nat (right + 1 - (i + 1))" by auto
  have step: "referential_loop s right i r0 = referential_loop ?s2 right (i + 1) ?r1"
    using le Suc.prems
    by (subst referential_loop.simps) (simp add: subscript_Some)
  have inv: "\<forall>j. lo \<le> j \<and> j < i + 1 \<longrightarrow> \<not> dless (x (points ?s2 ! nat j)) (x (points ?s2 ! nat ?r1))"
  proof (intro allI impI)
    fix j assume j: "lo \<le> j \<and> j < i + 1"
    show "\<not> dless (x (points ?s2 ! nat j)) (x (points ?s2 ! nat ?r1))"
    proof (cases "j = i")
      case True
      then show ?thesis by (simp add: dless_irrefl)
    next
      case False
      with j have "lo \<le> j \<and> j < i" by simp
      with Suc.prems(6) have "\<not> dless (x (points s ! nat j)) (x (points s ! nat r0))" by blast
      then show ?thesis using dless_trans by auto
    qed
  qed
  have pre: "0 \<le> lo" "lo \<le> i + 1" "lo \<le> ?r1" "?r1 \<le> right" "right < int (length (points ?s2))"
    using Suc.prems le by auto
  from Suc.hyps(1)[OF n pre inv] obtain r evs where
    res: "referential_loop ?s2 right (i + 1) ?r1 = Some (r, ?s2\<lparr>trace := trace ?s2 @ evs\<rparr>)"
    and r: "lo \<le> r" "r \<le> right"
    and mn: "\<forall>j. lo \<le> j \<and> j \<le> right \<longrightarrow> \<not> dless (x (points s ! nat j)) (x (points s ! nat r))"
    and ev: "set (subscripts evs) \<subseteq> {lo..right}" "searches evs = []"
    by auto
  have "referential_loop s right i r0 = Some (r, s\<lparr>trace := trace s @ ([Subscript i, Subscript r0] @ evs)\<rparr>)"
    using res step by simp
  moreover have "set (subscripts ([Subscript i, Subscript r0] @ evs)) \<subseteq> {lo..right}"
    using ev le Suc.prems by auto
  moreover have "searches ([Subscript i, Subscript r0] @ evs) = []"
    using ev by simp
  ultimately show ?case using r mn by blast
qed

lemma partition_loop_total:
  assumes "0 \<le> i" "right < int (length (points s))"
    and "\<forall>j. i \<le> j \<and> j < right \<longrightarrow> \<not> dless (x (points s ! nat j)) (x (points s ! nat right))"
  shows "\<exists>evs. partition_loop s right i splitIndex = Some (splitIndex, s\<lparr>trace := trace s @ evs\<rparr>)
          \<and> set (subscripts evs) \<subseteq> {i..right} \<and> searches evs = []"
  using assms
proof (induction "nat (right - i)" arbitrary: s i)
  case 0
  then have "partition_loop s right i splitIndex = Some (splitIndex, s\<lparr>trace := trace s @ []\<rparr>)"
    by (subst partition_loop.simps) simp
  then show ?case by (intro exI[of _ "[]"]) simp
next
  case (Suc n)
  let ?s2 = "s\<lparr>trace := trace s @ [Subscript i, Subscript right]\<rparr>"
  from Suc.hyps(2) have lt: "i < right" and n: "n = nat (right - (i + 1))" by auto
  from Suc.prems(3) lt have nl: "\<not> dless (x (points s ! nat i)) (x (points s ! nat right))" by simp
  have step: "partition_loop s right i splitIndex = partition_loop ?s2 right (i + 1) splitIndex"
    using lt nl Suc.prems
    by (subst partition_loop.simps) (simp add: subscript_Some)
  have pre: "0 \<le> i + 1" "right < int (length (points ?s2))"
    "\<forall>j. i + 1 \<le> j \<and> j < right \<longrightarrow> \<not> dless (x (points ?s2 ! nat j)) (x (points ?s2 ! nat right))"
    using Suc.prems by auto
  from Suc.hyps(1)[OF n pre] obtain evs where
    res: "partition_loop ?s2 right (i + 1) splitIndex = Some (splitIndex, ?s2\<lparr>trace := trace ?s2 @ evs\<rparr>)"
    and ev: "set (subscripts evs) \<subseteq> {i + 1..right}" "searches evs = []"
    by auto
  have "partition_loop s right i splitIndex
          = Some (splitIndex, s\<lparr>trace := trace s @ ([Subscript i, Subscript right] @ evs)\<rparr>)"
    using res step by simp
  moreover have "set (subscripts ([Subscript i, Subscript right] @ evs)) \<subseteq> {i..right}"
    using ev lt by auto
  moreover have "searches ([Subscript i, Subscript right] @ evs) = []"
    using ev by simp
  ultimately show ?case by blast
qed

text \<open>The vector after \<^verbatim>\<open>swap(points[i], points[j])\<close>.\<close>

definition exchange :: "'a list \<Rightarrow> int \<Rightarrow> int \<Rightarrow> 'a list" where
  "exchange xs i j = xs[nat i := xs ! nat j, nat j := xs ! nat i]"

lemma length_exchange: "length (exchange xs i j) = length xs"
  by (simp add: exchange_def)

lemma exchange_nth:
  "0 \<le> i \<Longrightarrow> i < int (length xs) \<Longrightarrow> 0 \<le> j \<Longrightarrow> j < int (length xs) \<Longrightarrow> 0 \<le> k \<Longrightarrow> k < int (length xs) \<Longrightarrow>
   exchange xs i j ! nat k = (if k = j then xs ! nat i else if k = i then xs ! nat j else xs ! nat k)"
  by (auto simp: exchange_def nth_list_update)

lemma mset_exchange:
  "0 \<le> i \<Longrightarrow> i < int (length xs) \<Longrightarrow> 0 \<le> j \<Longrightarrow> j < int (length xs) \<Longrightarrow> mset (exchange xs i j) = mset xs"
  by (simp add: exchange_def mset_swap)

lemma swap_exchange:
  "0 \<le> i \<Longrightarrow> i < int (length (points s)) \<Longrightarrow> 0 \<le> j \<Longrightarrow> j < int (length (points s)) \<Longrightarrow>
   swap s i j = Some (s\<lparr>points := exchange (points s) i j, trace := trace s @ [Subscript i, Subscript j]\<rparr>)"
  by (simp add: swap_Some exchange_def)

lemma subscripts_search_trace:
  "set (subscripts (search_trace a b i n)) = (if i < n then {a, b} \<union> {i..n - 1} else {})"
proof (induction "nat (n - i)" arbitrary: i)
  case 0
  then show ?case by (simp add: search_trace_done)
next
  case (Suc k)
  then have lt: "i < n" and k: "k = nat (n - (i + 1))" by auto
  have "set (subscripts (search_trace a b i n))
          = {a, b, i} \<union> set (subscripts (search_trace a b (i + 1) n))"
    by (subst search_trace_step[OF lt]) simp
  also have "\<dots> = {a, b, i} \<union> (if i + 1 < n then {a, b} \<union> {i + 1..n - 1} else {})"
    by (simp only: Suc.hyps(1)[OF k])
  also have "\<dots> = {a, b} \<union> {i..n - 1}"
    using lt by auto
  finally show ?case using lt by simp
qed


lemma partition_and_emit_total:
  assumes "0 \<le> left" "left < right" "right < int (length (points s))"
  shows "\<exists>r evs. partition_and_emit s left right =
            Some (left, s\<lparr>points := exchange (exchange (points s) r right) right left,
                          convexHull := convexHull s @ [points s ! nat r],
                          trace := trace s @ evs\<rparr>)
          \<and> left \<le> r \<and> r \<le> right
          \<and> (\<forall>j. left \<le> j \<and> j \<le> right \<longrightarrow> \<not> dless (x (points s ! nat j)) (x (points s ! nat r)))
          \<and> set (subscripts evs) \<subseteq> {left..right} \<and> searches evs = []"
proof -
  let ?pts = "points s"
  have "\<forall>j. left \<le> j \<and> j < left \<longrightarrow> \<not> dless (x (?pts ! nat j)) (x (?pts ! nat left))" by auto
  from referential_loop_total[OF assms(1) order_refl order_refl less_imp_le[OF assms(2)] assms(3) this]
  obtain r evs1 where
    ref: "referential_loop s right left left = Some (r, s\<lparr>trace := trace s @ evs1\<rparr>)"
    and r: "left \<le> r" "r \<le> right"
    and mn: "\<forall>j. left \<le> j \<and> j \<le> right \<longrightarrow> \<not> dless (x (?pts ! nat j)) (x (?pts ! nat r))"
    and ev1: "set (subscripts evs1) \<subseteq> {left..right}" "searches evs1 = []"
    by blast
  let ?s1 = "s\<lparr>trace := trace s @ evs1\<rparr>"
  let ?pts1 = "exchange ?pts r right"
  let ?s2 = "s\<lparr>points := ?pts1, trace := trace s @ evs1 @ [Subscript r, Subscript right]\<rparr>"
  have sw1: "swap ?s1 r right = Some ?s2"
    using r assms by (simp add: swap_exchange)
  have right1: "?pts1 ! nat right = ?pts ! nat r"
    using r assms by (simp add: exchange_nth)
  have inv1: "\<forall>j. left \<le> j \<and> j < right \<longrightarrow> \<not> dless (x (points ?s2 ! nat j)) (x (points ?s2 ! nat right))"
  proof (intro allI impI)
    fix j assume j: "left \<le> j \<and> j < right"
    then have "?pts1 ! nat j = (if j = r then ?pts ! nat right else ?pts ! nat j)"
      using r assms by (simp add: exchange_nth)
    with mn j assms right1 show "\<not> dless (x (points ?s2 ! nat j)) (x (points ?s2 ! nat right))"
      by auto
  qed
  have len2: "right < int (length (points ?s2))"
    using assms by (simp add: length_exchange)
  from partition_loop_total[OF assms(1) len2 inv1, of left] obtain evs2 where
    part: "partition_loop ?s2 right left left = Some (left, ?s2\<lparr>trace := trace ?s2 @ evs2\<rparr>)"
    and ev2: "set (subscripts evs2) \<subseteq> {left..right}" "searches evs2 = []"
    by blast
  let ?s3 = "s\<lparr>points := ?pts1, trace := trace s @ evs1 @ [Subscript r, Subscript right] @ evs2\<rparr>"
  have s3: "?s2\<lparr>trace := trace ?s2 @ evs2\<rparr> = ?s3" by simp
  let ?pts2 = "exchange ?pts1 right left"
  let ?evs = "evs1 @ [Subscript r, Subscript right] @ evs2 @ [Subscript right, Subscript left, Subscript left]"
  let ?s4 = "s\<lparr>points := ?pts2,
               trace := trace s @ evs1 @ [Subscript r, Subscript right] @ evs2 @ [Subscript right, Subscript left]\<rparr>"
  have sw2: "swap ?s3 right left = Some ?s4"
    using assms by (simp add: swap_exchange length_exchange)
  have left2: "?pts2 ! nat left = ?pts ! nat r"
    using assms right1 by (simp add: exchange_nth length_exchange)
  let ?s5 = "s\<lparr>points := ?pts2, trace := trace s @ ?evs\<rparr>"
  have sub: "subscript ?s4 left = Some (?pts ! nat r, ?s5)"
    using assms left2 by (simp add: subscript_Some length_exchange)
  let ?s6 = "s\<lparr>points := ?pts2, convexHull := convexHull s @ [?pts ! nat r], trace := trace s @ ?evs\<rparr>"
  have s6: "?s5\<lparr>convexHull := convexHull ?s5 @ [?pts ! nat r]\<rparr> = ?s6" by simp
  have "partition_and_emit s left right = Some (left, ?s6)"
    unfolding partition_and_emit_def
    by (simp only: ref sw1 part s3 sw2 sub s6 Option.bind.simps prod.case)
  moreover have "set (subscripts ?evs) \<subseteq> {left..right}"
    using ev1 ev2 r assms by (auto simp: subscripts_append)
  moreover have "searches ?evs = []"
    using ev1 ev2 by (simp add: searches_append)
  ultimately show ?thesis using r mn by blast
qed

lemma findMaxDistancePoint_total:
  assumes "0 \<le> a" "a < int (length (points s))" "0 \<le> b" "b < int (length (points s))"
  shows "\<exists>m. findMaxDistancePoint s a b =
            Some (m, s\<lparr>trace := trace s @ Search a b # search_trace a b 0 (int (length (points s)))\<rparr>)
          \<and> (a = b \<longrightarrow> m = - 1)"
proof -
  let ?s' = "s\<lparr>trace := trace s @ [Search a b]\<rparr>"
  have b: "0 \<le> a" "a < int (length (points ?s'))" "0 \<le> b" "b < int (length (points ?s'))"
    using assms by simp_all
  from findMaxDistancePoint_loop_total[OF b order_refl, of "Fin (- 1)" "- 1"]
  show ?thesis by (simp add: findMaxDistancePoint_def)
qed

lemma quickHull_body_total:
  assumes "0 \<le> left" "left < right" "right < int (length (points s))"
  shows "\<exists>r evs. quickHull_body s left right =
            Some (left, s\<lparr>points := exchange (exchange (points s) r right) right left,
                          convexHull := convexHull s @ [points s ! nat r],
                          trace := trace s @ evs @ Search left left #
                                     search_trace left left 0 (int (length (points s)))\<rparr>)
          \<and> left \<le> r \<and> r \<le> right
          \<and> (\<forall>j. left \<le> j \<and> j \<le> right \<longrightarrow> \<not> dless (x (points s ! nat j)) (x (points s ! nat r)))
          \<and> set (subscripts evs) \<subseteq> {left..right} \<and> searches evs = []"
proof -
  from partition_and_emit_total[OF assms] obtain r evs where
    pe: "partition_and_emit s left right =
            Some (left, s\<lparr>points := exchange (exchange (points s) r right) right left,
                          convexHull := convexHull s @ [points s ! nat r],
                          trace := trace s @ evs\<rparr>)"
    and rest: "left \<le> r \<and> r \<le> right
          \<and> (\<forall>j. left \<le> j \<and> j \<le> right \<longrightarrow> \<not> dless (x (points s ! nat j)) (x (points s ! nat r)))
          \<and> set (subscripts evs) \<subseteq> {left..right} \<and> searches evs = []"
    by blast
  let ?s6 = "s\<lparr>points := exchange (exchange (points s) r right) right left,
               convexHull := convexHull s @ [points s ! nat r], trace := trace s @ evs\<rparr>"
  have b: "0 \<le> left" "left < int (length (points ?s6))"
    using assms by (simp_all add: length_exchange)
  from findMaxDistancePoint_total[OF b b] obtain m where
    fm: "findMaxDistancePoint ?s6 left left =
           Some (m, ?s6\<lparr>trace := trace ?s6 @ Search left left #
                                  search_trace left left 0 (int (length (points ?s6)))\<rparr>)"
    by blast
  have "quickHull_body s left right =
          Some (left, ?s6\<lparr>trace := trace ?s6 @ Search left left #
                                  search_trace left left 0 (int (length (points ?s6)))\<rparr>)"
    unfolding quickHull_body_def by (simp only: pe fm Option.bind.simps prod.case)
  then have "quickHull_body s left right =
            Some (left, s\<lparr>points := exchange (exchange (points s) r right) right left,
                          convexHull := convexHull s @ [points s ! nat r],
                          trace := trace s @ evs @ Search left left #
                                     search_trace left left 0 (int (length (points s)))\<rparr>)"
    by (simp add: length_exchange)
  with rest show ?thesis by blast
qed

section \<open>A call inside the buffer\<close>

text \<open>
  On a range inside the buffer the referential point is a minimum of the range, so the
  partition finds no point strictly to its left: the split index is \<open>left\<close>, the left
  recursion has an empty range, and the call continues on \<open>[left + 1, right]\<close>.
\<close>

lemma quickHull_step:
  assumes "0 \<le> left" "left < right" "right < int (length (points s))"
  shows "\<exists>s7 p. quickHull_body s left right = Some (left, s7)
          \<and> convexHull s7 = convexHull s @ [p] \<and> p \<in> set (points s)
          \<and> mset (points s7) = mset (points s)
          \<and> quickHull s left right = quickHull s7 (left + 1) right"
proof -
  from quickHull_body_total[OF assms] obtain r evs where
    body: "quickHull_body s left right =
            Some (left, s\<lparr>points := exchange (exchange (points s) r right) right left,
                          convexHull := convexHull s @ [points s ! nat r],
                          trace := trace s @ evs @ Search left left #
                                     search_trace left left 0 (int (length (points s)))\<rparr>)"
    and r: "left \<le> r" "r \<le> right"
    by blast
  let ?s7 = "s\<lparr>points := exchange (exchange (points s) r right) right left,
                          convexHull := convexHull s @ [points s ! nat r],
                          trace := trace s @ evs @ Search left left #
                                     search_trace left left 0 (int (length (points s)))\<rparr>"
  have ne: "points s \<noteq> []" using assms by auto
  have base: "quickHull ?s7 left (left - 1) = Some ?s7"
    by (subst quickHull.simps) simp
  have rec: "quickHull s left right = quickHull ?s7 (left + 1) right"
    using assms ne by (subst quickHull.simps) (simp add: body base)
  have mem: "points s ! nat r \<in> set (points s)"
    using r assms by simp
  have ms: "mset (points ?s7) = mset (points s)"
    using r assms by (simp add: mset_exchange length_exchange)
  show ?thesis
    using body rec mem ms by (intro exI[of _ ?s7] exI[of _ "points s ! nat r"]) simp
qed

lemma quickHull_valid:
  assumes "0 \<le> left" "right < int (length (points s))"
  shows "\<exists>s' new. quickHull s left right = Some s'
          \<and> convexHull s' = convexHull s @ new \<and> length new = nat (right - left)
          \<and> set new \<subseteq> set (points s)
          \<and> mset (points s') = mset (points s)"
  using assms
proof (induction "nat (right - left)" arbitrary: s left)
  case 0
  then have "quickHull s left right = Some s"
    by (subst quickHull.simps) simp
  with 0 show ?case by simp
next
  case (Suc n)
  from Suc.hyps(2) have lt: "left < right" and n: "n = nat (right - (left + 1))" by auto
  from quickHull_step[OF Suc.prems(1) lt Suc.prems(2)] obtain s7 p where
    hull7: "convexHull s7 = convexHull s @ [p]" and p: "p \<in> set (points s)"
    and ms7: "mset (points s7) = mset (points s)"
    and rec: "quickHull s left right = quickHull s7 (left + 1) right"
    by blast
  from ms7 have len7: "length (points s7) = length (points s)"
    by (metis size_mset)
  from ms7 have set7: "set (points s7) = set (points s)"
    by (metis set_mset_mset)
  have pre: "0 \<le> left + 1" "right < int (length (points s7))"
    using Suc.prems len7 by auto
  from Suc.hyps(1)[OF n pre] obtain s' new where
    res: "quickHull s7 (left + 1) right = Some s'"
    and new: "convexHull s' = convexHull s7 @ new" "length new = nat (right - (left + 1))"
             "set new \<subseteq> set (points s7)"
    and ms': "mset (points s') = mset (points s7)"
    by blast
  have "quickHull s left right = Some s'" using rec res by simp
  moreover have "convexHull s' = convexHull s @ (p # new)" using new hull7 by simp
  moreover have "length (p # new) = nat (right - left)" using new lt by simp
  moreover have "set (p # new) \<subseteq> set (points s)" using new p set7 by simp
  moreover have "mset (points s') = mset (points s)" using ms' ms7 by simp
  ultimately show ?case by blast
qed

section \<open>A run of the driver\<close>

text \<open>
  With \<open>n\<close> coordinate pairs to read (none for \<open>n \<le> 0\<close>) the read loop pushes the
  first \<open>n\<close> pairs, the call of \<^verbatim>\<open>quickHull\<close> on \<open>[0, n - 1]\<close> is defined, and
  \<^verbatim>\<open>main\<close> prints the header and the hull and returns 0.
\<close>

lemma read_loop_total:
  "n - i \<le> int (length input) \<Longrightarrow>
   read_loop n i input pts out
     = Some (pts @ take (nat (n - i)) input, out @ map Prompt_point [i + 1..n])"
proof (induction "nat (n - i)" arbitrary: i input pts out)
  case 0
  then show ?case by (subst read_loop.simps) simp
next
  case (Suc k)
  from Suc.hyps(2) have lt: "i < n" and k: "k = nat (n - (i + 1))" by auto
  from Suc.prems lt obtain point rest where input: "input = point # rest"
    by (cases input) auto
  have le: "n - (i + 1) \<le> int (length rest)" using Suc.prems input by simp
  have tk: "take (nat (n - i)) (point # rest) = point # take (nat (n - (i + 1))) rest"
  proof -
    from lt have "nat (n - i) = Suc (nat (n - (i + 1)))" by simp
    then show ?thesis by simp
  qed
  have up: "[i + 1..n] = (i + 1) # [i + 1 + 1..n]"
    using lt by (simp add: upto_rec1)
  show ?case
    using lt Suc.hyps(1)[OF k le, of "pts @ [point]" "out @ [Prompt_point (i + 1)]"]
    by (subst read_loop.simps) (simp add: input tk up)
qed

lemma main_valid:
  assumes "- 2147483648 < n" "n \<le> 2147483647" "n \<le> int (length input)"
  shows "\<exists>s'. quickHull \<lparr>points = take (nat n) input, convexHull = [], trace = []\<rparr> 0 (n - 1) = Some s'
           \<and> length (convexHull s') = nat (n - 1)
           \<and> main n input = Some \<lparr>stdout = Prompt_count # map Prompt_point [1..n] @ [Header]
                                              @ map Vertex (convexHull s'),
                                    exit_status = 0\<rparr>"
proof -
  let ?s = "\<lparr>points = take (nat n) input, convexHull = [], trace = []\<rparr>"
  have rd: "read_loop n 0 input [] [Prompt_count]
              = Some (take (nat n) input, Prompt_count # map Prompt_point [1..n])"
    using read_loop_total[of n 0 input "[]" "[Prompt_count]"] assms(3) by simp
  have "n - 1 < int (length (points ?s))" using assms(3) by simp
  from quickHull_valid[OF order_refl this] obtain s' new where
    q: "quickHull ?s 0 (n - 1) = Some s'" and "convexHull s' = convexHull ?s @ new"
    "length new = nat (n - 1 - 0)"
    by blast
  then have "length (convexHull s') = nat (n - 1)" by simp
  moreover have "main n input = Some \<lparr>stdout = Prompt_count # map Prompt_point [1..n] @ [Header]
                                              @ map Vertex (convexHull s'),
                                    exit_status = 0\<rparr>"
    using assms(1,2) by (simp add: main_def rd q)
  ultimately show ?thesis using q by blast
qed

section \<open>What a defined step leaves\<close>

text \<open>
  Whatever the range, a step that is defined keeps the points of the buffer (the swaps
  permute them) and the body appends one of them to the hull.
\<close>

lemma subscript_SomeD:
  "subscript s i = Some (p, s') \<Longrightarrow>
   0 \<le> i \<and> i < int (length (points s)) \<and> p = points s ! nat i
   \<and> points s' = points s \<and> convexHull s' = convexHull s"
  by (auto simp: subscript_def split: if_splits)

lemma swap_SomeD:
  "swap s i j = Some s' \<Longrightarrow> mset (points s') = mset (points s) \<and> convexHull s' = convexHull s"
  by (auto simp: swap_def split: Option.bind_splits dest!: subscript_SomeD simp: mset_swap)

lemma referential_loop_SomeD:
  "referential_loop s right i r0 = Some (r, s') \<Longrightarrow>
   points s' = points s \<and> convexHull s' = convexHull s"
proof (induction "nat (right + 1 - i)" arbitrary: s i r0)
  case 0
  then show ?case by (subst (asm) referential_loop.simps) auto
next
  case (Suc n)
  from Suc.hyps(2) have le: "i \<le> right" and n: "n = nat (right + 1 - (i + 1))" by auto
  from Suc.prems le obtain s2 r1 where
    rec: "referential_loop s2 right (i + 1) r1 = Some (r, s')"
    and s2: "points s2 = points s" "convexHull s2 = convexHull s"
    by (subst (asm) referential_loop.simps)
       (auto split: Option.bind_splits dest!: subscript_SomeD)
  from Suc.hyps(1)[OF n rec] s2 show ?case by simp
qed

lemma partition_loop_SomeD:
  "partition_loop s right i k = Some (r, s') \<Longrightarrow>
   mset (points s') = mset (points s) \<and> convexHull s' = convexHull s"
proof (induction "nat (right - i)" arbitrary: s i k)
  case 0
  then show ?case by (subst (asm) partition_loop.simps) auto
next
  case (Suc n)
  from Suc.hyps(2) have lt: "i < right" and n: "n = nat (right - (i + 1))" by auto
  from Suc.prems lt obtain s2 k1 where
    rec: "partition_loop s2 right (i + 1) k1 = Some (r, s')"
    and s2: "mset (points s2) = mset (points s)" "convexHull s2 = convexHull s"
    by (subst (asm) partition_loop.simps)
       (auto split: Option.bind_splits if_splits dest!: subscript_SomeD swap_SomeD)
  from Suc.hyps(1)[OF n rec] s2 show ?case by simp
qed

lemma findMaxDistancePoint_loop_SomeD:
  "findMaxDistancePoint_loop s a b i d m = Some (r, s') \<Longrightarrow>
   points s' = points s \<and> convexHull s' = convexHull s"
proof (induction "nat (int (length (points s)) - i)" arbitrary: s i d m)
  case 0
  then show ?case by (subst (asm) findMaxDistancePoint_loop.simps) auto
next
  case (Suc n)
  from Suc.hyps(2) have lt: "i < int (length (points s))" by auto
  from Suc.prems lt obtain s3 d1 m1 where
    rec: "findMaxDistancePoint_loop s3 a b (i + 1) d1 m1 = Some (r, s')"
    and s3: "points s3 = points s" "convexHull s3 = convexHull s"
    by (subst (asm) findMaxDistancePoint_loop.simps)
       (auto simp: Let_def split: Option.bind_splits if_splits dest!: subscript_SomeD)
  from Suc.hyps(2) s3 have n: "n = nat (int (length (points s3)) - (i + 1))" by auto
  from Suc.hyps(1)[OF n rec] s3 show ?case by simp
qed

lemma quickHull_body_SomeD:
  assumes "quickHull_body s left right = Some (k, s')"
  shows "mset (points s') = mset (points s)
       \<and> (\<exists>p. p \<in> set (points s) \<and> convexHull s' = convexHull s @ [p])"
proof -
  from assms obtain r s1 s2 s3 s4 p s5 m where
    1: "referential_loop s right left left = Some (r, s1)"
    and 2: "swap s1 r right = Some s2"
    and 3: "partition_loop s2 right left left = Some (k, s3)"
    and 4: "swap s3 right k = Some s4"
    and 5: "subscript s4 k = Some (p, s5)"
    and 6: "findMaxDistancePoint_loop (s5\<lparr>convexHull := convexHull s5 @ [p], trace := trace s5 @ [Search left k]\<rparr>)
              left k 0 (Fin (- 1)) (- 1) = Some (m, s')"
    by (auto simp: quickHull_body_def partition_and_emit_def findMaxDistancePoint_def
        split: Option.bind_splits)
  note a = referential_loop_SomeD[OF 1] swap_SomeD[OF 2] partition_loop_SomeD[OF 3]
    swap_SomeD[OF 4] subscript_SomeD[OF 5] findMaxDistancePoint_loop_SomeD[OF 6]
  from a have ms: "mset (points s4) = mset (points s)" by simp
  then have "set (points s4) = set (points s)" by (metis set_mset_mset)
  moreover from a have "p = points s4 ! nat k" "nat k < length (points s4)" by auto
  then have "p \<in> set (points s4)" by simp
  ultimately have p: "p \<in> set (points s)" by simp
  from a ms have "mset (points s') = mset (points s)" by simp
  moreover from a have "convexHull s' = convexHull s @ [p]" by simp
  ultimately show ?thesis using p by blast
qed

section \<open>The record of accesses changes no result\<close>

text \<open>
  The record of accesses is not part of the program. Two states have the same data when
  they hold the same point buffer and the same hull; their records may differ. Every
  function above takes states with the same data to results with the same data, or is
  undefined on both: what is written into the record never reaches the buffer, the hull
  or an index.
\<close>

definition same_data :: "state \<Rightarrow> state \<Rightarrow> bool" where
  "same_data s t \<longleftrightarrow> points s = points t \<and> convexHull s = convexHull t"

lemma bind_rel:
  "rel_option R m1 m2 \<Longrightarrow> (\<And>a b. R a b \<Longrightarrow> rel_option S (f a) (g b)) \<Longrightarrow>
   rel_option S (Option.bind m1 f) (Option.bind m2 g)"
  by (cases m1; cases m2) auto

lemma subscript_rel:
  "same_data s t \<Longrightarrow> rel_option (rel_prod (=) same_data) (subscript s i) (subscript t i)"
  by (auto simp: same_data_def subscript_def)

lemma swap_rel:
  "same_data s t \<Longrightarrow> rel_option same_data (swap s i j) (swap t i j)"
  by (auto simp: same_data_def swap_def subscript_def)

lemma referential_loop_rel:
  "same_data s t \<Longrightarrow>
   rel_option (rel_prod (=) same_data) (referential_loop s right i r0) (referential_loop t right i r0)"
proof (induction "nat (right + 1 - i)" arbitrary: s t i r0)
  case 0
  then show ?case
    by (simp add: referential_loop.simps[of s right i r0] referential_loop.simps[of t right i r0])
next
  case (Suc n)
  from Suc.hyps(2) have le: "i \<le> right" and n: "n = nat (right + 1 - (i + 1))" by auto
  show ?case
    apply (simp only: referential_loop.simps[of s right i r0] referential_loop.simps[of t right i r0]
        le if_True)
    apply (rule bind_rel[OF subscript_rel[OF Suc.prems]])
    apply (clarsimp)
    apply (rule bind_rel[OF subscript_rel])
     apply assumption
    apply (clarsimp)
    apply (intro conjI impI)
     apply (rule Suc.hyps(1)[OF n])
     apply assumption
    apply (rule Suc.hyps(1)[OF n])
    apply assumption
    done
qed

lemma partition_loop_rel:
  "same_data s t \<Longrightarrow>
   rel_option (rel_prod (=) same_data) (partition_loop s right i k) (partition_loop t right i k)"
proof (induction "nat (right - i)" arbitrary: s t i k)
  case 0
  then show ?case
    by (simp add: partition_loop.simps[of s right i k] partition_loop.simps[of t right i k])
next
  case (Suc n)
  from Suc.hyps(2) have lt: "i < right" and n: "n = nat (right - (i + 1))" by auto
  show ?case
    apply (simp only: partition_loop.simps[of s right i k] partition_loop.simps[of t right i k]
        lt if_True)
    apply (rule bind_rel[OF subscript_rel[OF Suc.prems]])
    apply (clarsimp)
    apply (rule bind_rel[OF subscript_rel])
     apply assumption
    apply (clarsimp)
    apply (intro conjI impI)
     apply (rule bind_rel[OF swap_rel])
      apply assumption
     apply (rule Suc.hyps(1)[OF n])
     apply assumption
    apply (rule Suc.hyps(1)[OF n])
    apply assumption
    done
qed

lemma subscript_rel_keep:
  "same_data s t \<Longrightarrow>
   rel_option (rel_prod (=) (\<lambda>s' t'. same_data s' t' \<and> points s' = points s))
     (subscript s i) (subscript t i)"
  by (auto simp: same_data_def subscript_def)

lemma findMaxDistancePoint_loop_rel:
  "same_data s t \<Longrightarrow>
   rel_option (rel_prod (=) same_data)
     (findMaxDistancePoint_loop s a b i d m) (findMaxDistancePoint_loop t a b i d m)"
proof (induction "nat (int (length (points s)) - i)" arbitrary: s t i d m)
  case 0
  then have "\<not> i < int (length (points s))" "\<not> i < int (length (points t))"
    by (auto simp: same_data_def)
  with 0 show ?case
    by (simp add: findMaxDistancePoint_loop.simps[of s a b i d m]
        findMaxDistancePoint_loop.simps[of t a b i d m])
next
  case (Suc n)
  from Suc.hyps(2) Suc.prems have lt: "i < int (length (points s))" "i < int (length (points t))"
    by (auto simp: same_data_def)
  have n: "\<And>s3. points s3 = points s \<Longrightarrow> n = nat (int (length (points s3)) - (i + 1))"
    using Suc.hyps(2) by auto
  show ?case
    apply (simp only: findMaxDistancePoint_loop.simps[of s a b i d m]
        findMaxDistancePoint_loop.simps[of t a b i d m] lt if_True)
    apply (rule bind_rel[OF subscript_rel_keep[OF Suc.prems]])
    apply (clarsimp)
    apply (rule bind_rel[OF subscript_rel_keep])
     apply assumption
    apply (clarsimp)
    apply (rule bind_rel[OF subscript_rel_keep])
     apply assumption
    apply (clarsimp simp: Let_def)
    apply (intro conjI impI)
     apply (rule Suc.hyps(1))
      apply (rule n)
      apply simp
     apply assumption
    apply (rule Suc.hyps(1))
     apply (rule n)
     apply simp
    apply assumption
    done
qed

lemma findMaxDistancePoint_rel:
  "same_data s t \<Longrightarrow>
   rel_option (rel_prod (=) same_data) (findMaxDistancePoint s a b) (findMaxDistancePoint t a b)"
  unfolding findMaxDistancePoint_def
  by (rule findMaxDistancePoint_loop_rel) (simp add: same_data_def)

lemma partition_and_emit_rel:
  "same_data s t \<Longrightarrow>
   rel_option (rel_prod (=) same_data)
     (partition_and_emit s left right) (partition_and_emit t left right)"
  unfolding partition_and_emit_def
  apply (rule bind_rel[OF referential_loop_rel])
   apply assumption
  apply clarsimp
  apply (rule bind_rel[OF swap_rel])
   apply assumption
  apply (rule bind_rel[OF partition_loop_rel])
   apply assumption
  apply clarsimp
  apply (rule bind_rel[OF swap_rel])
   apply assumption
  apply (rule bind_rel[OF subscript_rel])
   apply assumption
  apply (clarsimp simp: same_data_def)
  done

lemma quickHull_body_rel:
  "same_data s t \<Longrightarrow>
   rel_option (rel_prod (=) same_data) (quickHull_body s left right) (quickHull_body t left right)"
  unfolding quickHull_body_def
  apply (rule bind_rel[OF partition_and_emit_rel])
   apply assumption
  apply clarsimp
  apply (rule bind_rel[OF findMaxDistancePoint_rel])
   apply assumption
  apply clarsimp
  done

lemma quickHull_rel:
  "same_data s t \<Longrightarrow> rel_option same_data (quickHull s left right) (quickHull t left right)"
proof (induction "nat (right - left)" arbitrary: s t left right rule: less_induct)
  case less
  show ?case
  proof (cases "points s = [] \<or> left \<ge> right")
    case True
    with less.prems have "points t = [] \<or> left \<ge> right" by (auto simp: same_data_def)
    with True less.prems show ?thesis
      by (simp add: quickHull.simps[of s left right] quickHull.simps[of t left right])
  next
    case False
    with less.prems have Ft: "\<not> (points t = [] \<or> left \<ge> right)" by (auto simp: same_data_def)
    from False have lt: "left < right" by simp
    have body: "rel_option (rel_prod (=) same_data)
                  (quickHull_body s left right) (quickHull_body t left right)"
      by (rule quickHull_body_rel[OF less.prems])
    show ?thesis
    proof (cases "quickHull_body s left right")
      case None
      with body have "quickHull_body t left right = None" by (cases "quickHull_body t left right") auto
      with None False Ft show ?thesis
        by (simp add: quickHull.simps[of s left right] quickHull.simps[of t left right])
    next
      case (Some a)
      then obtain k s7 where s7: "quickHull_body s left right = Some (k, s7)" by (cases a) auto
      with body obtain t7 where t7: "quickHull_body t left right = Some (k, t7)"
        and d7: "same_data s7 t7"
        by (cases "quickHull_body t left right") auto
      from quickHull_body_bounds[OF s7] lt have k: "left \<le> k" "k \<le> right" by auto
      have m1: "nat (k - 1 - left) < nat (right - left)" using k lt by auto
      have m2: "nat (right - (k + 1)) < nat (right - left)" using k lt by auto
      have r1: "rel_option same_data (quickHull s7 left (k - 1)) (quickHull t7 left (k - 1))"
        by (rule less.hyps[OF m1 d7])
      have "rel_option same_data
              (quickHull s7 left (k - 1) \<bind> (\<lambda>s8. quickHull s8 (k + 1) right))
              (quickHull t7 left (k - 1) \<bind> (\<lambda>t8. quickHull t8 (k + 1) right))"
        by (rule bind_rel[OF r1]) (rule less.hyps[OF m2])
      with False Ft s7 t7 show ?thesis
        by (simp add: quickHull.simps[of s left right] quickHull.simps[of t left right])
    qed
  qed
qed

section \<open>Runs on concrete inputs\<close>

text \<open>The equations that unfold a run step by step.\<close>

lemmas run_simps =
  quickHull.simps quickHull_body_def partition_and_emit_def findMaxDistancePoint_def
  findMaxDistancePoint_loop.simps referential_loop.simps partition_loop.simps
  swap_def subscript_def distance_same dgreater_NaN

text \<open>
  C1. A triangle should give its three corners. On the triangle \<open>(0,0), (1,0), (0,1)\<close>
  the run over the full range \<open>[0, 2]\<close> returns the two points \<open>(0,0), (0,1)\<close>: the
  corner \<open>(1,0)\<close> is left alone in a range of one point, which the base case drops.
\<close>

theorem quickHull_triangle_run:
  "map_option convexHull
     (quickHull \<lparr>points = [\<lparr>x = Fin 0, y = Fin 0\<rparr>, \<lparr>x = Fin 1, y = Fin 0\<rparr>, \<lparr>x = Fin 0, y = Fin 1\<rparr>],
                 convexHull = [], trace = []\<rparr> 0 2)
   = Some [\<lparr>x = Fin 0, y = Fin 0\<rparr>, \<lparr>x = Fin 0, y = Fin 1\<rparr>]"
  by (simp add: run_simps)

text \<open>
  C2. The unit square with its centre, in the order \<open>(0,0), (0,1), (1,1), (1,0), (0.5,0.5)\<close>:
  the hull should leave the centre out. The run over \<open>[0, 4]\<close> returns
  \<open>(0,0), (0,1), (0.5,0.5), (1,0)\<close>: the centre is the third point appended, and the
  corner \<open>(1,1)\<close> is missing.
\<close>

theorem quickHull_square_centre_run:
  "map_option convexHull
     (quickHull \<lparr>points = [\<lparr>x = Fin 0, y = Fin 0\<rparr>, \<lparr>x = Fin 0, y = Fin 1\<rparr>, \<lparr>x = Fin 1, y = Fin 1\<rparr>,
                           \<lparr>x = Fin 1, y = Fin 0\<rparr>, \<lparr>x = Fin 0.5, y = Fin 0.5\<rparr>],
                 convexHull = [], trace = []\<rparr> 0 4)
   = Some [\<lparr>x = Fin 0, y = Fin 0\<rparr>, \<lparr>x = Fin 0, y = Fin 1\<rparr>, \<lparr>x = Fin 0.5, y = Fin 0.5\<rparr>,
           \<lparr>x = Fin 1, y = Fin 0\<rparr>]"
  by (simp add: run_simps)

section \<open>The distance to a segment of length zero\<close>

text \<open>
  C8, as the specification states it: called with \<open>a = b\<close>, \<^verbatim>\<open>distance\<close> yields neither
  infinity nor NaN, it fails or falls back to the distance from \<open>p\<close> to \<open>a\<close>. The
  function has no failure to report (it returns a double) and no test of the divisor: for
  \<open>a = b = (0,0)\<close> and \<open>p = (1,1)\<close> it divides zero by zero, and the value is NaN, not
  the distance \<open>sqrt 2\<close> from \<open>p\<close> to \<open>a\<close>.
\<close>

theorem distance_zero_length_counterexample:
  "distance \<lparr>x = Fin 0, y = Fin 0\<rparr> \<lparr>x = Fin 0, y = Fin 0\<rparr> \<lparr>x = Fin 1, y = Fin 1\<rparr> = NaN
   \<and> distance \<lparr>x = Fin 0, y = Fin 0\<rparr> \<lparr>x = Fin 0, y = Fin 0\<rparr> \<lparr>x = Fin 1, y = Fin 1\<rparr> \<noteq> Fin (sqrt 2)"
  by (simp add: distance_def dsub_def dinf_def)

text \<open>
  C8, amended: called with \<open>a = b\<close>, \<^verbatim>\<open>distance\<close> returns NaN, whatever the points
  are; nothing fails and no other distance is computed in its place.
\<close>

theorem distance_zero_length_is_NaN: "distance a a p = NaN"
  by (rule distance_same)

section \<open>How many points a run appends\<close>

text \<open>
  C3. On a buffer of \<open>n \<ge> 1\<close> points the run over the full range \<open>[0, n - 1]\<close> is
  defined and appends exactly \<open>n - 1\<close> points to the hull. The reason is the second
  half: on every range \<open>[left, right]\<close> of two or more points inside the buffer, the body
  returns the split index \<open>left\<close> and appends one point, the left recursion
  \<open>[left, left - 1]\<close> changes nothing, and the call is the call on \<open>[left + 1, right]\<close>.
\<close>

theorem quickHull_appends_all_but_one:
  assumes "1 \<le> length (points s)"
  shows "(\<exists>s' new. quickHull s 0 (int (length (points s)) - 1) = Some s'
            \<and> convexHull s' = convexHull s @ new \<and> length new = length (points s) - 1)
       \<and> (\<forall>t left right. 0 \<le> left \<and> left < right \<and> right < int (length (points t)) \<longrightarrow>
            (\<exists>t' p. quickHull_body t left right = Some (left, t')
               \<and> convexHull t' = convexHull t @ [p]
               \<and> quickHull t' left (left - 1) = Some t'
               \<and> quickHull t left right = quickHull t' (left + 1) right))"
proof (intro conjI allI impI)
  have "(0::int) \<le> 0" "int (length (points s)) - 1 < int (length (points s))" by simp_all
  from quickHull_valid[OF this] obtain s' new where
    "quickHull s 0 (int (length (points s)) - 1) = Some s'"
    "convexHull s' = convexHull s @ new" "length new = nat (int (length (points s)) - 1 - 0)"
    by blast
  moreover have "nat (int (length (points s)) - 1 - 0) = length (points s) - 1" by simp
  ultimately show "\<exists>s' new. quickHull s 0 (int (length (points s)) - 1) = Some s'
            \<and> convexHull s' = convexHull s @ new \<and> length new = length (points s) - 1"
    by metis
next
  fix t :: state and left right :: int
  assume a: "0 \<le> left \<and> left < right \<and> right < int (length (points t))"
  then have "0 \<le> left" "left < right" "right < int (length (points t))" by simp_all
  from quickHull_step[OF this] obtain t' p where
    "quickHull_body t left right = Some (left, t')" "convexHull t' = convexHull t @ [p]"
    "quickHull t left right = quickHull t' (left + 1) right"
    by blast
  moreover have "quickHull t' left (left - 1) = Some t'"
    by (subst quickHull.simps) simp
  ultimately show "\<exists>t' p. quickHull_body t left right = Some (left, t')
               \<and> convexHull t' = convexHull t @ [p]
               \<and> quickHull t' left (left - 1) = Some t'
               \<and> quickHull t left right = quickHull t' (left + 1) right"
    by blast
qed

theorem quickHull_appends_all_but_one_witness:
  "(\<exists>s' new. quickHull \<lparr>points = [\<lparr>x = Fin 2, y = Fin 0\<rparr>, \<lparr>x = Fin 1, y = Fin 3\<rparr>, \<lparr>x = Fin 0, y = Fin 1\<rparr>],
                 convexHull = [], trace = []\<rparr> 0 2 = Some s'
            \<and> convexHull s' = new \<and> length new = 2)
   \<and> (\<exists>t' p. quickHull_body \<lparr>points = [\<lparr>x = Fin 2, y = Fin 0\<rparr>, \<lparr>x = Fin 1, y = Fin 3\<rparr>, \<lparr>x = Fin 0, y = Fin 1\<rparr>],
                 convexHull = [], trace = []\<rparr> 0 2 = Some (0, t')
               \<and> convexHull t' = [p])"
proof -
  let ?s = "\<lparr>points = [\<lparr>x = Fin 2, y = Fin 0\<rparr>, \<lparr>x = Fin 1, y = Fin 3\<rparr>, \<lparr>x = Fin 0, y = Fin 1\<rparr>],
                 convexHull = [], trace = []\<rparr>"
  have h: "1 \<le> length (points ?s)" by simp
  have r: "(0::int) \<le> 0 \<and> (0::int) < 2 \<and> (2::int) < int (length (points ?s))" by simp
  note th = quickHull_appends_all_but_one[OF h]
  from th[THEN conjunct1] have a: "\<exists>s' new. quickHull ?s 0 2 = Some s' \<and> convexHull s' = new \<and> length new = 2"
    by auto
  from th[THEN conjunct2, rule_format, OF r] have b: "\<exists>t' p. quickHull_body ?s 0 2 = Some (0, t') \<and> convexHull t' = [p]"
    by auto
  from a b show ?thesis by blast
qed

section \<open>Fewer than two points\<close>

text \<open>
  C5. For \<open>n = 0\<close> and \<open>n = 1\<close> the call of \<^verbatim>\<open>quickHull\<close> over the full range
  \<open>[0, n - 1]\<close> is defined and returns the state it was given, so the hull stays empty;
  this is no error: \<^verbatim>\<open>main\<close> prints the prompts and the header line, no vertex, and
  exits with status 0.
\<close>

theorem hull_of_at_most_one_point_is_empty:
  assumes "n = 0 \<or> n = 1" "n \<le> int (length input)"
  shows "quickHull \<lparr>points = take (nat n) input, convexHull = [], trace = []\<rparr> 0 (n - 1)
           = Some \<lparr>points = take (nat n) input, convexHull = [], trace = []\<rparr>
       \<and> main n input = Some \<lparr>stdout = Prompt_count # map Prompt_point [1..n] @ [Header],
                                exit_status = 0\<rparr>"
proof -
  let ?s = "\<lparr>points = take (nat n) input, convexHull = [], trace = []\<rparr>"
  have q: "quickHull ?s 0 (n - 1) = Some ?s"
    using assms(1) by (subst quickHull.simps) auto
  have rd: "read_loop n 0 input [] [Prompt_count]
              = Some (take (nat n) input, Prompt_count # map Prompt_point [1..n])"
    using read_loop_total[of n 0 input "[]" "[Prompt_count]"] assms(2) by simp
  have "main n input = Some \<lparr>stdout = Prompt_count # map Prompt_point [1..n] @ [Header],
                                exit_status = 0\<rparr>"
    using assms(1) by (auto simp: main_def rd q)
  with q show ?thesis by simp
qed

theorem hull_of_at_most_one_point_is_empty_witness:
  "quickHull \<lparr>points = [\<lparr>x = Fin 3, y = Fin 4\<rparr>], convexHull = [], trace = []\<rparr> 0 0
           = Some \<lparr>points = [\<lparr>x = Fin 3, y = Fin 4\<rparr>], convexHull = [], trace = []\<rparr>
   \<and> main 1 [\<lparr>x = Fin 3, y = Fin 4\<rparr>]
           = Some \<lparr>stdout = [Prompt_count, Prompt_point 1, Header], exit_status = 0\<rparr>
   \<and> main 0 [] = Some \<lparr>stdout = [Prompt_count, Header], exit_status = 0\<rparr>"
proof -
  have a: "(1::int) = 0 \<or> (1::int) = 1" "(1::int) \<le> int (length [\<lparr>x = Fin 3, y = Fin 4\<rparr>])" by simp_all
  have b: "(0::int) = 0 \<or> (0::int) = 1" "(0::int) \<le> int (length ([]::Point list))" by simp_all
  from hull_of_at_most_one_point_is_empty[OF a] hull_of_at_most_one_point_is_empty[OF b]
  show ?thesis by (simp add: upto_rec1)
qed

section \<open>Exit status\<close>

text \<open>
  C9, as the specification states it: a negative point count is reported as an error, no
  hull is printed and the exit status is not zero. With \<open>n = -1\<close> the read loop does
  not run, \<^verbatim>\<open>quickHull\<close> returns at once on the empty vector, the header line is
  printed and \<^verbatim>\<open>main\<close> returns 0.
\<close>

theorem main_negative_count_counterexample:
  "main (- 1) [] = Some \<lparr>stdout = [Prompt_count, Header], exit_status = 0\<rparr>"
  by (simp add: main_def read_loop.simps quickHull.simps)

text \<open>
  C9, amended: \<^verbatim>\<open>main\<close> has one exit status, 0, and no error report. Every run that
  is defined exits with status 0. For every count that an \<^verbatim>\<open>int\<close> holds above its
  least value, with \<open>n\<close> coordinate pairs to read when \<open>n\<close> is positive, the run is
  defined and exits with status 0; when \<open>n\<close> is negative it prints the prompt for the
  count and the header line and nothing else. Input that does not parse is outside the
  model.
\<close>

theorem main_exit_status:
  "(main n input = Some out \<longrightarrow> exit_status out = 0)
   \<and> (- 2147483648 < n \<and> n \<le> 2147483647 \<and> n \<le> int (length input) \<longrightarrow>
        (\<exists>out. main n input = Some out \<and> exit_status out = 0
           \<and> (n < 0 \<longrightarrow> stdout out = [Prompt_count, Header])))"
proof (intro conjI impI)
  assume "main n input = Some out"
  then show "exit_status out = 0"
    by (auto simp: main_def split: if_splits Option.bind_splits)
next
  assume a: "- 2147483648 < n \<and> n \<le> 2147483647 \<and> n \<le> int (length input)"
  then have "- 2147483648 < n" "n \<le> 2147483647" "n \<le> int (length input)" by simp_all
  from main_valid[OF this] obtain s' :: state where
    len: "length (convexHull s') = nat (n - 1)"
    and m: "main n input = Some \<lparr>stdout = Prompt_count # map Prompt_point [1..n] @ [Header]
                                              @ map Vertex (convexHull s'),
                                    exit_status = 0\<rparr>"
    by blast
  have "n < 0 \<longrightarrow> Prompt_count # map Prompt_point [1..n] @ [Header] @ map Vertex (convexHull s')
          = [Prompt_count, Header]"
    using len by auto
  with m show "\<exists>out. main n input = Some out \<and> exit_status out = 0
           \<and> (n < 0 \<longrightarrow> stdout out = [Prompt_count, Header])"
    by auto
qed

theorem main_exit_status_witness:
  "(\<exists>out. main (- 3) [] = Some out \<and> exit_status out = 0 \<and> stdout out = [Prompt_count, Header])
   \<and> (\<exists>out. main 2 [\<lparr>x = Fin 1, y = Fin 0\<rparr>, \<lparr>x = Fin 0, y = Fin 0\<rparr>] = Some out \<and> exit_status out = 0)"
proof -
  have a: "- 2147483648 < (- 3::int) \<and> (- 3::int) \<le> 2147483647 \<and> (- 3::int) \<le> int (length ([]::Point list))"
    by simp
  have b: "- 2147483648 < (2::int) \<and> (2::int) \<le> 2147483647
           \<and> (2::int) \<le> int (length [\<lparr>x = Fin 1, y = Fin 0\<rparr>, \<lparr>x = Fin 0, y = Fin 0\<rparr>])"
    by simp
  from main_exit_status[of "- 3" "[]", THEN conjunct2, rule_format, OF a]
       main_exit_status[of 2 "[\<lparr>x = Fin 1, y = Fin 0\<rparr>, \<lparr>x = Fin 0, y = Fin 0\<rparr>]", THEN conjunct2, rule_format, OF b]
  show ?thesis by auto
qed

section \<open>The indices a call examines\<close>

text \<open>
  C4, as the specification states it: a call on \<open>[left, right]\<close> examines no point
  outside the range, the farthest-point search it invokes included. The run on the
  triangle \<open>(0,0), (1,0), (0,1)\<close> appends \<open>(0,0)\<close>, leaves the buffer in this order and
  recurses on \<open>[1, 2]\<close>. Below is that second call, started with an empty record: after
  \<open>Search 1 1\<close> the record holds \<open>Subscript 0\<close>, because the search loops over the whole
  vector.
\<close>

theorem quickHull_body_reads_outside_counterexample:
  "quickHull_body
     \<lparr>points = [\<lparr>x = Fin 0, y = Fin 0\<rparr>, \<lparr>x = Fin 1, y = Fin 0\<rparr>, \<lparr>x = Fin 0, y = Fin 1\<rparr>],
      convexHull = [\<lparr>x = Fin 0, y = Fin 0\<rparr>], trace = []\<rparr> 1 2
   = Some (1,
       \<lparr>points = [\<lparr>x = Fin 0, y = Fin 0\<rparr>, \<lparr>x = Fin 0, y = Fin 1\<rparr>, \<lparr>x = Fin 1, y = Fin 0\<rparr>],
        convexHull = [\<lparr>x = Fin 0, y = Fin 0\<rparr>, \<lparr>x = Fin 0, y = Fin 1\<rparr>],
        trace =
          [Subscript 1, Subscript 1, Subscript 2, Subscript 1, Subscript 2,
           Subscript 2, Subscript 1, Subscript 2, Subscript 2, Subscript 1,
           Subscript 1, Search 1 1, Subscript 1, Subscript 1, Subscript 0,
           Subscript 1, Subscript 1, Subscript 1, Subscript 1, Subscript 1,
           Subscript 2]\<rparr>)
   \<and> 0 \<in> set (subscripts
          [Subscript 1, Subscript 1, Subscript 2, Subscript 1, Subscript 2,
           Subscript 2, Subscript 1, Subscript 2, Subscript 2, Subscript 1,
           Subscript 1, Search 1 1, Subscript 1, Subscript 1, Subscript 0,
           Subscript 1, Subscript 1, Subscript 1, Subscript 1, Subscript 1,
           Subscript 2])"
  by (simp add: run_simps)

text \<open>
  C4, amended: in a call on a range \<open>[left, right]\<close> of two or more points inside the
  buffer, everything up to the search (the choice of the referential point, the two
  swaps, the partition and the append) subscripts only indices inside \<open>[left, right]\<close>;
  the farthest-point search that the call then invokes subscripts every index of the
  buffer, from 0 to \<open>size - 1\<close>.
\<close>

theorem quickHull_body_examines:
  assumes "0 \<le> left" "left < right" "right < int (length (points s))"
  shows "\<exists>splitIndex s' evs.
           quickHull_body s left right = Some (splitIndex, s')
         \<and> trace s' = trace s @ evs @ Search left splitIndex #
                          search_trace left splitIndex 0 (int (length (points s)))
         \<and> set (subscripts evs) \<subseteq> {left..right} \<and> searches evs = []
         \<and> set (subscripts (search_trace left splitIndex 0 (int (length (points s)))))
             = {0..int (length (points s)) - 1}"
proof -
  from quickHull_body_total[OF assms] obtain r evs where
    body: "quickHull_body s left right =
            Some (left, s\<lparr>points := exchange (exchange (points s) r right) right left,
                          convexHull := convexHull s @ [points s ! nat r],
                          trace := trace s @ evs @ Search left left #
                                     search_trace left left 0 (int (length (points s)))\<rparr>)"
    and ev: "set (subscripts evs) \<subseteq> {left..right}" "searches evs = []"
    by blast
  have "set (subscripts (search_trace left left 0 (int (length (points s)))))
          = {0..int (length (points s)) - 1}"
    using assms by (auto simp: subscripts_search_trace)
  with body ev show ?thesis by auto
qed

theorem quickHull_body_examines_witness:
  "\<exists>splitIndex s' evs.
     quickHull_body \<lparr>points = [\<lparr>x = Fin 0, y = Fin 0\<rparr>, \<lparr>x = Fin 1, y = Fin 0\<rparr>, \<lparr>x = Fin 0, y = Fin 1\<rparr>],
                     convexHull = [\<lparr>x = Fin 0, y = Fin 0\<rparr>], trace = []\<rparr> 1 2 = Some (splitIndex, s')
   \<and> trace s' = evs @ Search 1 splitIndex # search_trace 1 splitIndex 0 3
   \<and> set (subscripts evs) \<subseteq> {1..2} \<and> searches evs = []
   \<and> set (subscripts (search_trace 1 splitIndex 0 3)) = {0..2}"
proof -
  let ?s = "\<lparr>points = [\<lparr>x = Fin 0, y = Fin 0\<rparr>, \<lparr>x = Fin 1, y = Fin 0\<rparr>, \<lparr>x = Fin 0, y = Fin 1\<rparr>],
                     convexHull = [\<lparr>x = Fin 0, y = Fin 0\<rparr>], trace = []\<rparr>"
  have h: "(0::int) \<le> 1" "(1::int) < 2" "(2::int) < int (length (points ?s))" by simp_all
  from quickHull_body_examines[OF h] show ?thesis by simp
qed

section \<open>The farthest-point search and the hull\<close>



section \<open>Where the hull points come from\<close>

text \<open>
  C6. Whatever the state and the range, when the call of \<^verbatim>\<open>quickHull\<close> is defined
  the hull it leaves is the hull it was given followed by new points, and every new point
  is a point of the buffer the call was given. On a range inside the buffer the call is
  defined.
\<close>

theorem quickHull_emits_input_points:
  "(quickHull s left right = Some s' \<longrightarrow>
      (\<exists>new. convexHull s' = convexHull s @ new \<and> set new \<subseteq> set (points s)))
   \<and> (0 \<le> left \<and> right < int (length (points s)) \<longrightarrow>
      (\<exists>s''. quickHull s left right = Some s''))"
proof -
  have "quickHull s left right = Some s' \<Longrightarrow>
        mset (points s') = mset (points s)
        \<and> (\<exists>new. convexHull s' = convexHull s @ new \<and> set new \<subseteq> set (points s))"
  proof (induction "nat (right - left)" arbitrary: s left right s' rule: less_induct)
    case less
    show ?case
    proof (cases "points s = [] \<or> left \<ge> right")
      case True
      with less.prems have "s' = s" by (subst (asm) quickHull.simps) auto
      then show ?thesis by simp
    next
      case False
      then have lt: "left < right" by simp
      from less.prems False obtain k s7 s8 where
        b: "quickHull_body s left right = Some (k, s7)"
        and q1: "quickHull s7 left (k - 1) = Some s8"
        and q2: "quickHull s8 (k + 1) right = Some s'"
        by (subst (asm) quickHull.simps) (auto split: Option.bind_splits)
      from quickHull_body_bounds[OF b] lt have k: "left \<le> k" "k \<le> right" by auto
      have m1: "nat (k - 1 - left) < nat (right - left)" using k lt by auto
      have m2: "nat (right - (k + 1)) < nat (right - left)" using k lt by auto
      from quickHull_body_SomeD[OF b] obtain p where
        ms7: "mset (points s7) = mset (points s)" and p: "p \<in> set (points s)"
        and h7: "convexHull s7 = convexHull s @ [p]"
        by blast
      from less.hyps[OF m1 q1] obtain new1 where
        ms8: "mset (points s8) = mset (points s7)"
        and h8: "convexHull s8 = convexHull s7 @ new1" "set new1 \<subseteq> set (points s7)"
        by blast
      from less.hyps[OF m2 q2] obtain new2 where
        ms': "mset (points s') = mset (points s8)"
        and h': "convexHull s' = convexHull s8 @ new2" "set new2 \<subseteq> set (points s8)"
        by blast
      from ms7 have set7: "set (points s7) = set (points s)" by (metis set_mset_mset)
      from ms8 have set8: "set (points s8) = set (points s7)" by (metis set_mset_mset)
      have "convexHull s' = convexHull s @ (p # new1 @ new2)" using h7 h8 h' by simp
      moreover have "set (p # new1 @ new2) \<subseteq> set (points s)"
        using p h8 h' set7 set8 by auto
      moreover have "mset (points s') = mset (points s)" using ms7 ms8 ms' by simp
      ultimately show ?thesis by blast
    qed
  qed
  moreover have "0 \<le> left \<and> right < int (length (points s)) \<longrightarrow>
      (\<exists>s''. quickHull s left right = Some s'')"
    using quickHull_valid[of left right s] by blast
  ultimately show ?thesis by blast
qed

theorem quickHull_emits_input_points_witness:
  "\<exists>s' new. quickHull \<lparr>points = [\<lparr>x = Fin 2, y = Fin 0\<rparr>, \<lparr>x = Fin 1, y = Fin 3\<rparr>, \<lparr>x = Fin 0, y = Fin 1\<rparr>],
                 convexHull = [], trace = []\<rparr> 0 2 = Some s'
     \<and> convexHull s' = new
     \<and> set new \<subseteq> {\<lparr>x = Fin 2, y = Fin 0\<rparr>, \<lparr>x = Fin 1, y = Fin 3\<rparr>, \<lparr>x = Fin 0, y = Fin 1\<rparr>}"
proof -
  let ?s = "\<lparr>points = [\<lparr>x = Fin 2, y = Fin 0\<rparr>, \<lparr>x = Fin 1, y = Fin 3\<rparr>, \<lparr>x = Fin 0, y = Fin 1\<rparr>],
                 convexHull = [], trace = []\<rparr>"
  have r: "(0::int) \<le> 0 \<and> (2::int) < int (length (points ?s))" by simp
  from quickHull_emits_input_points[of ?s 0 2, THEN conjunct2, rule_format, OF r]
  obtain s' where q: "quickHull ?s 0 2 = Some s'" by blast
  from quickHull_emits_input_points[of ?s 0 2 s', THEN conjunct1, rule_format, OF q] q
  show ?thesis by auto
qed

end
